theory Spec2Isabelle
  imports Main "HOL-Library.AList" "HOL-Library.List_Lexorder" "HOL-Library.Char_ord"
begin

section \<open>Values, field descriptors and models\<close>

text \<open>
  Python values that reach the engine: \<open>None\<close>, booleans, integers, strings, sequences
  and mappings (a mapping keeps its items in insertion order).
\<close>

datatype val = VNull | VBool bool | VInt int | VStr string
  | VList "val list" | VDict "(string \<times> val) list"

text \<open>
  Modelled from the spec: the descriptor classes (\<open>fields.Raw\<close> and its subclasses, module
  \<open>fields.py\<close>) are missing. Section 3 gives every descriptor the attributes \<open>required\<close>,
  \<open>default\<close>, \<open>attribute\<close> (a source key override) and \<open>discriminator\<close>; \<open>model.py\<close>
  reads \<open>required\<close> and \<open>discriminator\<close> and writes \<open>default\<close>. \<open>allow_null\<close> is kept
  with \<open>Nested\<close>, the one descriptor whose transform reads it.
\<close>

record attrs =
  required :: bool
  default_v :: val
  attribute :: "string option"
  discriminator :: bool

text \<open>
  Modelled from the spec: the variants of a descriptor are missing (\<open>fields.py\<close>). Section 3
  names them: Raw (pass-through), a typed scalar with its coercion function, List (wraps
  another descriptor) and Nested (wraps a field mapping and carries its own \<open>allow_null\<close>
  and \<open>skip_none\<close>, in this order below).

  A model stores a field either as a descriptor instance or as a descriptor class
  (\<open>{'foo': fields.Raw}\<close>); \<open>instance\<close> of \<open>model.py\<close> tells them apart. A class is
  represented by the instance that calling it without arguments builds.
\<close>

datatype descriptor =
    Raw attrs
  | Scalar attrs "val \<Rightarrow> val"
  | List attrs field
  | Nested attrs "(string \<times> field) list" bool bool
and field = FieldClass descriptor | FieldInstance descriptor

fun attrs_of :: "descriptor \<Rightarrow> attrs" where
  "attrs_of (Raw a) = a"
| "attrs_of (Scalar a c) = a"
| "attrs_of (List a f) = a"
| "attrs_of (Nested a fs an sn) = a"

fun with_attrs :: "descriptor \<Rightarrow> attrs \<Rightarrow> descriptor" where
  "with_attrs (Raw a) b = Raw b"
| "with_attrs (Scalar a c) b = Scalar b c"
| "with_attrs (List a f) b = List b f"
| "with_attrs (Nested a fs an sn) b = Nested b fs an sn"

text \<open>
  \<^verbatim>\<open>
  def instance(cls):
      if isinstance(cls, type):
          return cls()
      return cls
  \<close>
  The function is \<open>instance_of\<close> here, \<open>instance\<close> being a keyword of Isabelle.
\<close>

fun instance_of :: "field \<Rightarrow> descriptor" where
  "instance_of (FieldClass d) = d"
| "instance_of (FieldInstance d) = d"

datatype error = ValueError string | IndexError

text \<open>
  \<open>Model\<close> and \<open>OrderedModel\<close> are dicts of fields with a name, an optional mask and the list
  \<open>__parents__\<close>. \<open>ident\<close> is the identity \<open>id(self)\<close> of the object, which keys the
  resolution cache; \<open>items\<close> are the dict's own items in insertion order. The parents are
  held as values, so that a model cannot be its own ancestor; a change of an object is
  another value with the same \<open>ident\<close>.
\<close>

datatype model = Model (ident: nat) (name: string) (items: "(string \<times> field) list")
  (mask: "string option") (parents: "model list")

text \<open>A dict built from a sequence of pairs: a later pair replaces an earlier one with its key.\<close>

definition dict_of :: "('k \<times> 'v) list \<Rightarrow> ('k \<times> 'v) list" where
  "dict_of kvs = foldl (\<lambda>d kv. AList.update (fst kv) (snd kv) d) [] kvs"

text \<open>A model is a dict: it is false in a condition exactly when it has no items.\<close>

definition truthy :: "model \<Rightarrow> bool" where
  "truthy m = (items m \<noteq> [])"

subsection \<open>\<open>ModelBase.ancestors\<close>\<close>

text \<open>
  \<^verbatim>\<open>
  ancestors = [p.ancestors for p in self.__parents__]
  return set.union(set([self.name]), *ancestors)
  \<close>
\<close>

fun ancestors :: "model \<Rightarrow> string set" where
  "ancestors (Model i n fs mk ps) = {n} \<union> \<Union> (set (map ancestors ps))"

subsection \<open>\<open>ModelBase.get_parent\<close>\<close>

text \<open>
  \<^verbatim>\<open>
  if self.name == name:
      return self
  else:
      for parent in self.__parents__:
          found = parent.get_parent(name)
          if found:
              return found
  raise ValueError('Parent ' + name + ' not found')
  \<close>
  The call on a parent either returns a model or raises; an exception raised there leaves the
  loop of the caller. \<open>found\<close> is a \<open>Model\<close> or an \<open>OrderedModel\<close>, a dict, and the test
  \<open>if found\<close> fails for one without items.
\<close>

function get_parent :: "model \<Rightarrow> string \<Rightarrow> error + model"
  and get_parent_loop :: "model list \<Rightarrow> string \<Rightarrow> error + model" where
  "get_parent (Model i n fs mk ps) nm =
     (if n = nm then Inr (Model i n fs mk ps) else get_parent_loop ps nm)"
| "get_parent_loop [] nm = Inl (ValueError (''Parent '' @ nm @ '' not found''))"
| "get_parent_loop (p # ps) nm =
     (case get_parent p nm of
        Inl e \<Rightarrow> Inl e
      | Inr found \<Rightarrow> if truthy found then Inr found else get_parent_loop ps nm)"
  by pat_completeness auto
termination
  by (relation "measure (\<lambda>x. case x of Inl (m, _) \<Rightarrow> size m
                                | Inr (ms, _) \<Rightarrow> size_list size ms)") auto

subsection \<open>\<open>ModelBase.inherit\<close>\<close>

text \<open>
  \<^verbatim>\<open>
  @classmethod
  def inherit(cls, name, *parents):
      model = cls(name, parents[-1])
      model.__parents__ = parents[:-1]
      return model
  \<close>
  \<open>cls(name, parents[-1])\<close> fills the new dict from the items of the last argument and sets
  no mask; \<open>parents[-1]\<close> of an empty tuple raises \<open>IndexError\<close>. The last argument is read
  as a mapping only, so a plain dict of fields in that position is given as a model carrying
  these items. \<open>oid\<close> is the identity of the new object.
\<close>

definition inherit :: "nat \<Rightarrow> string \<Rightarrow> model list \<Rightarrow> error + model" where
  "inherit oid nm ps =
     (if ps = [] then Inl IndexError
      else Inr (Model oid nm (dict_of (items (last ps))) None (butlast ps)))"

text \<open>
  The bound form set up in \<open>__init__\<close>:
  \<^verbatim>\<open>
  def instance_inherit(name, *parents):
      return self.__class__.inherit(name, self, *parents)
  \<close>
\<close>

definition instance_inherit :: "model \<Rightarrow> nat \<Rightarrow> string \<Rightarrow> model list \<Rightarrow> error + model" where
  "instance_inherit self oid nm ps = inherit oid nm (self # ps)"

subsection \<open>\<open>RawModel._schema\<close>\<close>

text \<open>
  \<^verbatim>\<open>
  properties = self.wrapper()
  required = set()
  discriminator = None
  for name, field in self.items():
      field = instance(field)
      properties[name] = field.__schema__
      if field.required:
          required.add(name)
      if getattr(field, 'discriminator', False):
          discriminator = name
  return not_none({
      'required': sorted(list(required)) or None,
      'properties': properties,
      'discriminator': discriminator,
      'x-mask': str(self.__mask__) if self.__mask__ else None,
      'type': 'object',
  })
  \<close>
  \<open>not_none\<close> drops the entries whose value is \<open>None\<close>: an optional entry of the fragment is
  an \<open>option\<close>. The fragment \<open>field.__schema__\<close> of a descriptor comes from \<open>fields.py\<close>,
  which is not among the sources, and is the parameter \<open>fschema\<close>. The \<open>mask\<close> of a model
  is the text \<open>str(self.__mask__)\<close>, and \<open>None\<close> when \<open>self.__mask__\<close> is false.
\<close>

record 'f fragment =
  frag_required :: "string list option"
  frag_properties :: "(string \<times> 'f) list"
  frag_discriminator :: "string option"
  frag_x_mask :: "string option"
  frag_type :: string

definition dict_update :: "('k \<times> 'v) list \<Rightarrow> ('k \<times> 'v) list \<Rightarrow> ('k \<times> 'v) list" where
  "dict_update d other = foldl (\<lambda>d kv. AList.update (fst kv) (snd kv) d) d other"

definition schema_loop ::
  "(descriptor \<Rightarrow> 'f) \<Rightarrow> (string \<times> 'f) list \<times> string list \<times> string option \<Rightarrow> string \<times> field
     \<Rightarrow> (string \<times> 'f) list \<times> string list \<times> string option" where
  "schema_loop fschema st kf =
     (case st of (properties, req, disc) \<Rightarrow>
        let nm = fst kf; field = instance_of (snd kf) in
          (AList.update nm (fschema field) properties,
           if required (attrs_of field) then List.insert nm req else req,
           if discriminator (attrs_of field) then Some nm else disc))"

definition own_schema :: "(descriptor \<Rightarrow> 'f) \<Rightarrow> model \<Rightarrow> 'f fragment" where
  "own_schema fschema m =
     (case foldl (schema_loop fschema) ([], [], None) (items m) of
        (properties, req, disc) \<Rightarrow>
          \<lparr>frag_required = (if sort req = [] then None else Some (sort req)),
           frag_properties = properties,
           frag_discriminator = disc,
           frag_x_mask = mask m,
           frag_type = ''object''\<rparr>)"

subsection \<open>\<open>RawModel._resolved\<close>\<close>

text \<open>
  \<^verbatim>\<open>
  def _resolved(self):
      already_resolved = self._resolved.already_resolved.get(id(self), False)
      if already_resolved:
          return already_resolved
      # Duplicate fields
      res = copy.deepcopy(self)
      # Recursively copy parent fields if necessary
      for parent in self.__parents__:
          res.update(parent.resolved)
      # Handle discriminator
      candidates = [f for f in res.values() if getattr(f, 'discriminator', None)]
      # Ensure the is only one discriminator
      if len(candidates) > 1:
          raise ValueError('There can only be one discriminator by schema')
      # Ensure discriminator always output the model name
      elif len(candidates) == 1:
          candidates[0].default = self.name
      self._resolved.already_resolved[id(self)] = res
      return res
  _resolved.already_resolved = {}
  resolved = property(_resolved)
  \<close>
  The dict \<open>already_resolved\<close> is shared by all models; it is keyed by \<open>id(self)\<close> and
  nothing ever removes an entry. A cached \<open>res\<close> with no items is false in
  \<open>if already_resolved\<close>, as a missing entry is.

  Descriptors are objects, and the mappings share them: \<open>res.update(parent.resolved)\<close>
  puts the very objects of the parent's cached mapping into \<open>res\<close>, and
  \<open>candidates[0].default = self.name\<close> then writes into such an object. The state
  therefore holds the descriptor objects by address; a resolved mapping binds each key to
  an address. \<open>res\<close> is a copy of \<open>self\<close> (same name, mask and parents), and the functions
  return and cache its items.
\<close>

record rstate =
  objects :: "nat \<Rightarrow> field option"
  fresh :: nat
  already_resolved :: "nat \<Rightarrow> (string \<times> nat) list option"

text \<open>The state of a process that has built no descriptor yet and resolved no model.\<close>

definition initial :: rstate where
  "initial = \<lparr>objects = Map.empty, fresh = 0, already_resolved = Map.empty\<rparr>"

text \<open>
  Modelled from the spec: what \<open>getattr(f, 'discriminator', None)\<close> gives on a descriptor
  class is missing (\<open>fields.py\<close>). Section 3 has \<open>discriminator\<close> as configuration of a
  constructed descriptor: the class itself has no such attribute, and the call gives
  \<open>None\<close>. \<open>_resolved\<close> reads the attribute of the field as it is stored, without
  \<open>instance\<close>.
\<close>

fun is_discriminator :: "field \<Rightarrow> bool" where
  "is_discriminator (FieldInstance d) = discriminator (attrs_of d)"
| "is_discriminator (FieldClass d) = False"

definition discriminator_at :: "rstate \<Rightarrow> nat \<Rightarrow> bool" where
  "discriminator_at s a = (case objects s a of None \<Rightarrow> False | Some f \<Rightarrow> is_discriminator f)"

text \<open>\<open>[f for f in res.values() if getattr(f, 'discriminator', None)]\<close>, as addresses.\<close>

definition candidates :: "rstate \<Rightarrow> (string \<times> nat) list \<Rightarrow> nat list" where
  "candidates s res = filter (discriminator_at s) (map snd res)"

text \<open>
  \<open>f.default = name\<close>. On a class the assignment sets a class attribute, which the
  constructor of an instance overwrites; no class is ever among the candidates.
\<close>

fun set_default :: "field \<Rightarrow> string \<Rightarrow> field" where
  "set_default (FieldInstance d) nm =
     FieldInstance (with_attrs d ((attrs_of d)\<lparr>default_v := VStr nm\<rparr>))"
| "set_default (FieldClass d) nm = FieldClass d"

definition set_default_at :: "rstate \<Rightarrow> nat \<Rightarrow> string \<Rightarrow> rstate" where
  "set_default_at s a nm =
     (case objects s a of
        None \<Rightarrow> s
      | Some f \<Rightarrow> s\<lparr>objects := (objects s)(a \<mapsto> set_default f nm)\<rparr>)"

text \<open>
  \<open>copy.deepcopy(self)\<close>, through \<open>__deepcopy__\<close>: a new model of the pairs
  \<open>(key, copy.deepcopy(value, memo))\<close>. Every own item gets a new object, and the own
  items themselves are never written. (A descriptor class is copied as itself, and two
  keys of \<open>self\<close> that hold one object share their copy through \<open>memo\<close>. An object is
  written only when it is the single candidate of a mapping, hence an instance bound to
  one key of it, so that a new address for each item reads the same.)
\<close>

fun deepcopy_items :: "rstate \<Rightarrow> (string \<times> field) list \<Rightarrow> (string \<times> nat) list \<times> rstate" where
  "deepcopy_items s [] = ([], s)"
| "deepcopy_items s (kf # rest) =
     (case deepcopy_items
             (s\<lparr>objects := (objects s)(fresh s \<mapsto> snd kf), fresh := Suc (fresh s)\<rparr>) rest of
        (copies, s') \<Rightarrow> ((fst kf, fresh s) # copies, s'))"

text \<open>\<open>already_resolved.get(id(self), False)\<close>, when it is true in a condition.\<close>

definition cached :: "rstate \<Rightarrow> nat \<Rightarrow> (string \<times> nat) list option" where
  "cached s i =
     (case already_resolved s i of
        None \<Rightarrow> None
      | Some r \<Rightarrow> if r \<noteq> [] then Some r else None)"

definition conflict :: error where
  "conflict = ValueError ''There can only be one discriminator by schema''"

text \<open>
  The check of the candidates, the write of the default and the entry in the cache: more
  than one candidate raises, a single one gets the name of the model as its default.
\<close>

definition check_discriminator ::
  "nat \<Rightarrow> string \<Rightarrow> rstate \<Rightarrow> (string \<times> nat) list
     \<Rightarrow> (error + (string \<times> nat) list) \<times> rstate" where
  "check_discriminator i nm s res =
     (case candidates s res of
        [] \<Rightarrow> (Inr res, s\<lparr>already_resolved := (already_resolved s)(i \<mapsto> res)\<rparr>)
      | [a] \<Rightarrow>
          (Inr res, (set_default_at s a nm)
                      \<lparr>already_resolved := (already_resolved s)(i \<mapsto> res)\<rparr>)
      | _ \<Rightarrow> (Inl conflict, s))"

function resolved :: "rstate \<Rightarrow> model \<Rightarrow> (error + (string \<times> nat) list) \<times> rstate"
  and resolve_parents ::
    "rstate \<Rightarrow> (string \<times> nat) list \<Rightarrow> model list \<Rightarrow> (error + (string \<times> nat) list) \<times> rstate"
  where
  "resolved s (Model i n fs mk ps) =
     (case cached s i of
        Some r \<Rightarrow> (Inr r, s)
      | None \<Rightarrow>
          (case deepcopy_items s fs of
             (copies, s1) \<Rightarrow>
               (case resolve_parents s1 (dict_of copies) ps of
                  (Inl e, s2) \<Rightarrow> (Inl e, s2)
                | (Inr res, s2) \<Rightarrow> check_discriminator i n s2 res)))"
| "resolve_parents s res [] = (Inr res, s)"
| "resolve_parents s res (p # ps) =
     (case resolved s p of
        (Inl e, s') \<Rightarrow> (Inl e, s')
      | (Inr r, s') \<Rightarrow> resolve_parents s' (dict_update res r) ps)"
  by pat_completeness auto
termination
  by (relation "measure (\<lambda>x. case x of Inl (_, m) \<Rightarrow> size m
                                | Inr (_, _, ms) \<Rightarrow> size_list size ms)") auto

text \<open>
  The state after the accesses to \<open>resolved\<close> of the models of a list, one after the other,
  whatever they return or raise.
\<close>

fun accesses :: "rstate \<Rightarrow> model list \<Rightarrow> rstate" where
  "accesses s [] = s"
| "accesses s (m # ms) = accesses (snd (resolved s m)) ms"

text \<open>What a resolved mapping reads in a state: each key with the object at its address.\<close>

definition view :: "rstate \<Rightarrow> (string \<times> nat) list \<Rightarrow> (string \<times> field option) list" where
  "view s res = map (\<lambda>ka. (fst ka, objects s (snd ka))) res"

subsection \<open>The flattening of a model\<close>

text \<open>
  The field set that \<open>_resolved\<close> builds, with no cache and no check: the own items, then
  the resolved items of each parent in turn written over them by \<open>update\<close>. A parent wins
  over the model itself, and a later parent over an earlier one.
\<close>

fun flat :: "model \<Rightarrow> (string \<times> field) list" where
  "flat (Model i n fs mk ps) = foldl dict_update (dict_of fs) (map flat ps)"


definition discriminators :: "(string \<times> field) list \<Rightarrow> field list" where
  "discriminators its = filter is_discriminator (map snd its)"

text \<open>A model together with all its transitive parents.\<close>

fun family :: "model \<Rightarrow> model set" where
  "family (Model i n fs mk ps) = {Model i n fs mk ps} \<union> \<Union> (set (map family ps))"


text \<open>
  \<open>shape\<close> keeps of a field mapping its keys and which of them hold a discriminator;
  \<open>shape_at\<close> is the same for a resolved mapping in a state.
\<close>

definition shape :: "(string \<times> field) list \<Rightarrow> (string \<times> bool) list" where
  "shape its = map (\<lambda>kf. (fst kf, is_discriminator (snd kf))) its"

definition shape_at :: "rstate \<Rightarrow> (string \<times> nat) list \<Rightarrow> (string \<times> bool) list" where
  "shape_at s res = map (\<lambda>ka. (fst ka, discriminator_at s (snd ka))) res"


text \<open>
  Invariants of the proofs: a later state keeps the addresses of an earlier one and what
  they say of \<open>discriminator\<close>; the addresses of a mapping are in use; a cached mapping
  belongs to a model of the universe that has no conflict and has the shape of its
  flattening.
\<close>

definition extends :: "rstate \<Rightarrow> rstate \<Rightarrow> bool" where
  "extends s s' =
     (fresh s \<le> fresh s' \<and> (\<forall>a. a < fresh s \<longrightarrow> discriminator_at s' a = discriminator_at s a))"

definition in_use :: "rstate \<Rightarrow> (string \<times> nat) list \<Rightarrow> bool" where
  "in_use s res = (\<forall>a\<in>snd ` set res. a < fresh s)"



section \<open>The marshaller\<close>

text \<open>
  The module that holds \<open>marshal\<close> is not among the sources; only its tests are
  (\<open>tests/test_marshalling.py\<close>). The definitions of this section follow section 4.2 of
  the specification; where it is silent, the tests decide, and the comment says so.
\<close>

text \<open>
  Modelled from the spec: the value extraction of a descriptor is missing. ``Extract the
  source value by attribute override or field name from data (supporting both key lookup
  on mappings and attribute lookup on objects)'': an object is given as the mapping of its
  attributes, and a value that is no mapping has no key.
\<close>

definition get_value :: "string \<Rightarrow> val \<Rightarrow> val option" where
  "get_value key obj = (case obj of VDict kvs \<Rightarrow> map_of kvs key | _ \<Rightarrow> None)"

text \<open>
  Modelled from the spec: the default application of a descriptor is missing. The key is
  the \<open>attribute\<close> of the descriptor when it has one, the field name otherwise; ``if absent,
  use the descriptor's default''. A descriptor given as a class is instantiated first, as
  \<open>test_marshal\<close> passes \<open>fields.Raw\<close> itself.
\<close>

definition source_value :: "string \<times> field \<Rightarrow> val \<Rightarrow> val" where
  "source_value kf data =
     (let d = instance_of (snd kf);
          key = (case attribute (attrs_of d) of None \<Rightarrow> fst kf | Some a \<Rightarrow> a)
      in case get_value key data of None \<Rightarrow> default_v (attrs_of d) | Some v \<Rightarrow> v)"

lemma size_instance_of: "size (instance_of f) < Suc (size f + n)"
  by (cases f) auto

text \<open>
  Modelled from the spec: the value transform of each descriptor and the projection of one
  object through a field mapping are missing. \<open>sn\<close> says that \<open>skip_none\<close> is in force.
  \<^item> Raw: value unchanged.
  \<^item> Scalar: the coercion of the descriptor; a null value stays null (section 8: the
    \<open>String\<close> field of an absent value is \<open>None\<close>).
  \<^item> List: the wrapped descriptor over each element, in order; a null value stays null, and
    a value that is no sequence is taken as its only element (the spec is silent,
    \<open>test_marshal_list_of_nesteds\<close> passes a single mapping).
  \<^item> Nested: the sub-value against the nested fields; for a null value, null when
    \<open>allow_null\<close> is set, and otherwise the sub-object of an empty source. Inside,
    \<open>skip_none\<close> is in force when it is outside (``propagated recursively into
    Nested/List results'') or when the descriptor sets it itself.
  \<^item> Fields are taken in the order of the mapping; with \<open>skip_none\<close> a field whose final
    value is null is left out.
\<close>

function field_output :: "bool \<Rightarrow> descriptor \<Rightarrow> val \<Rightarrow> val"
  and marshal_fields :: "bool \<Rightarrow> (string \<times> field) list \<Rightarrow> val \<Rightarrow> (string \<times> val) list" where
  "field_output sn (Raw a) v = v"
| "field_output sn (Scalar a coerce) v = (if v = VNull then VNull else coerce v)"
| "field_output sn (List a f) v =
     (case v of
        VNull \<Rightarrow> VNull
      | VList vs \<Rightarrow> VList (map (field_output sn (instance_of f)) vs)
      | _ \<Rightarrow> VList [field_output sn (instance_of f) v])"
| "field_output sn (Nested a fs allow_null skip_none) v =
     (if v = VNull then
        (if allow_null then VNull
         else VDict (marshal_fields (sn \<or> skip_none) fs (VDict [])))
      else VDict (marshal_fields (sn \<or> skip_none) fs v))"
| "marshal_fields sn [] data = []"
| "marshal_fields sn (kf # rest) data =
     (let out = field_output sn (instance_of (snd kf)) (source_value kf data)
      in if sn \<and> out = VNull then marshal_fields sn rest data
         else (fst kf, out) # marshal_fields sn rest data)"
  by pat_completeness auto
termination
  by (relation "measure (\<lambda>x. case x of Inl (_, d, _) \<Rightarrow> size d
                                | Inr (_, fs, _) \<Rightarrow> size_list (size_prod (\<lambda>_. 0) size) fs)")
     (auto simp: size_instance_of size_instance_of [where n = 0, simplified]
        intro: less_SucI [OF size_instance_of])

lemmas marshal_fields_Cons = marshal_fields.simps(2)

declare marshal_fields.simps(2) [simp del]

text \<open>
  Modelled from the spec: the treatment of the argument \<open>data\<close> of \<open>marshal\<close> is missing.
  ``If data is a sequence (not a single mapping/object), the result is an ordered sequence
  of per-element marshaled mappings.''
\<close>

definition marshal_payload :: "bool \<Rightarrow> (string \<times> field) list \<Rightarrow> val \<Rightarrow> val" where
  "marshal_payload sn fs data =
     (case data of
        VList xs \<Rightarrow> VList (map (\<lambda>x. VDict (marshal_fields sn fs x)) xs)
      | _ \<Rightarrow> VDict (marshal_fields sn fs data))"

text \<open>
  Modelled from the spec: the envelope of \<open>marshal\<close> is missing. ``If set, wraps the final
  result (mapping or sequence) as \<open>{envelope: result}\<close>.''
\<close>

definition envelop :: "string option \<Rightarrow> val \<Rightarrow> val" where
  "envelop envelope result = (case envelope of None \<Rightarrow> result | Some e \<Rightarrow> VDict [(e, result)])"

type_synonym headers = "(string \<times> val) list"

text \<open>
  Modelled from the spec: the forms of \<open>data\<close> that \<open>marshal\<close> takes are missing: a payload
  (a single mapping or object, or a sequence of them), or a triple of payload, status and
  headers.
\<close>

datatype data = Payload val | Triple val int headers

fun payload_of :: "data \<Rightarrow> val" where
  "payload_of (Payload v) = v"
| "payload_of (Triple v st h) = v"

text \<open>
  Modelled from the spec: \<open>marshal(data, schema, envelope=None, skip_none=False)\<close> is
  missing. In a triple ``status/headers pass through unchanged; only payload is
  marshaled''.
\<close>

fun marshal :: "data \<Rightarrow> (string \<times> field) list \<Rightarrow> string option \<Rightarrow> bool \<Rightarrow> data" where
  "marshal (Payload v) fs envelope skip_none =
     Payload (envelop envelope (marshal_payload skip_none fs v))"
| "marshal (Triple v st h) fs envelope skip_none =
     Triple (envelop envelope (marshal_payload skip_none fs v)) st h"

subsection \<open>Properties of field mappings and of marshalled values\<close>

text \<open>A field mapping, and every field mapping nested in it, has each key once.\<close>

function wf_descriptor :: "descriptor \<Rightarrow> bool"
  and wf_fields :: "(string \<times> field) list \<Rightarrow> bool" where
  "wf_descriptor (Raw a) = True"
| "wf_descriptor (Scalar a coerce) = True"
| "wf_descriptor (List a f) = wf_descriptor (instance_of f)"
| "wf_descriptor (Nested a fs allow_null skip_none) = wf_fields fs"
| "wf_fields [] = True"
| "wf_fields (kf # rest) =
     (fst kf \<notin> fst ` set rest \<and> wf_descriptor (instance_of (snd kf)) \<and> wf_fields rest)"
  by pat_completeness auto
termination
  by (relation "measure (\<lambda>x. case x of Inl d \<Rightarrow> size d
                                | Inr fs \<Rightarrow> size_list (size_prod (\<lambda>_. 0) size) fs)")
     (auto simp: size_instance_of size_instance_of [where n = 0, simplified]
        intro: less_SucI [OF size_instance_of])

text \<open>
  No field of a marshalled value is null, at any depth: \<open>no_null_fields fs kvs\<close> looks each
  field of \<open>fs\<close> up in the mapping \<open>kvs\<close>; a field that is there is not null, the fields of
  a nested sub-object and of the sub-objects in a list are checked in the same way, and a
  value of another form than the descriptor produces is refused. A field is a field of the
  schema: an element of a list may be null, and what a Raw or a scalar descriptor passes on
  is not looked into.
\<close>

function no_null_value :: "descriptor \<Rightarrow> val \<Rightarrow> bool"
  and no_null_fields :: "(string \<times> field) list \<Rightarrow> (string \<times> val) list \<Rightarrow> bool" where
  "no_null_value (Raw a) v = True"
| "no_null_value (Scalar a coerce) v = True"
| "no_null_value (List a f) v =
     (case v of
        VNull \<Rightarrow> True
      | VList vs \<Rightarrow> list_all (no_null_value (instance_of f)) vs
      | _ \<Rightarrow> False)"
| "no_null_value (Nested a fs allow_null skip_none) v =
     (case v of
        VNull \<Rightarrow> True
      | VDict kvs \<Rightarrow> VNull \<notin> snd ` set kvs \<and> no_null_fields fs kvs
      | _ \<Rightarrow> False)"
| "no_null_fields [] kvs = True"
| "no_null_fields (kf # rest) kvs =
     ((case map_of kvs (fst kf) of
         None \<Rightarrow> True
       | Some v \<Rightarrow> v \<noteq> VNull \<and> no_null_value (instance_of (snd kf)) v)
      \<and> no_null_fields rest kvs)"
  by pat_completeness auto
termination
  by (relation "measure (\<lambda>x. case x of Inl (d, _) \<Rightarrow> size d
                                | Inr (fs, _) \<Rightarrow> size_list (size_prod (\<lambda>_. 0) size) fs)")
     (auto simp: size_instance_of size_instance_of [where n = 0, simplified]
        intro: less_SucI [OF size_instance_of])

text \<open>The same for the result of \<open>marshal\<close>: one mapping, or a sequence of mappings.\<close>

definition no_null_mapping :: "(string \<times> field) list \<Rightarrow> val \<Rightarrow> bool" where
  "no_null_mapping fs v =
     (case v of VDict kvs \<Rightarrow> VNull \<notin> snd ` set kvs \<and> no_null_fields fs kvs | _ \<Rightarrow> False)"

definition no_null_output :: "(string \<times> field) list \<Rightarrow> val \<Rightarrow> bool" where
  "no_null_output fs v =
     (case v of VList vs \<Rightarrow> list_all (no_null_mapping fs) vs | _ \<Rightarrow> no_null_mapping fs v)"

text \<open>
  The field mappings on which marshalling twice is marshalling once: each key once, no
  field reads another key than its own name, every scalar coercion is idempotent, and a
  field that \<open>skip_none\<close> can leave out has the default null.
\<close>

function stable_descriptor :: "bool \<Rightarrow> descriptor \<Rightarrow> bool"
  and stable_fields :: "bool \<Rightarrow> (string \<times> field) list \<Rightarrow> bool" where
  "stable_descriptor sn (Raw a) = True"
| "stable_descriptor sn (Scalar a coerce) = (\<forall>v. coerce (coerce v) = coerce v)"
| "stable_descriptor sn (List a f) = stable_descriptor sn (instance_of f)"
| "stable_descriptor sn (Nested a fs allow_null skip_none) = stable_fields (sn \<or> skip_none) fs"
| "stable_fields sn [] = True"
| "stable_fields sn (kf # rest) =
     (fst kf \<notin> fst ` set rest
      \<and> attribute (attrs_of (instance_of (snd kf))) \<in> {None, Some (fst kf)}
      \<and> (sn \<longrightarrow> default_v (attrs_of (instance_of (snd kf))) = VNull)
      \<and> stable_descriptor sn (instance_of (snd kf))
      \<and> stable_fields sn rest)"
  by pat_completeness auto
termination
  by (relation "measure (\<lambda>x. case x of Inl (_, d) \<Rightarrow> size d
                                | Inr (_, fs) \<Rightarrow> size_list (size_prod (\<lambda>_. 0) size) fs)")
     (auto simp: size_instance_of size_instance_of [where n = 0, simplified]
        intro: less_SucI [OF size_instance_of])

text \<open>A field mapping with every descriptor class replaced by its instance.\<close>

definition instantiated :: "string \<times> field \<Rightarrow> string \<times> field" where
  "instantiated kf = (fst kf, FieldInstance (instance_of (snd kf)))"

subsection \<open>Example models\<close>

definition plain :: attrs where
  "plain = \<lparr>required = False, default_v = VNull, attribute = None, discriminator = False\<rparr>"

definition ex_base :: model where
  "ex_base = Model 1 ''Base'' [(''id'', FieldInstance (Raw plain))] None []"

definition ex_other :: model where
  "ex_other = Model 2 ''Other'' [(''tag'', FieldInstance (Raw plain))] None []"

definition ex_extra :: model where
  "ex_extra = Model 3 ''extra'' [(''age'', FieldInstance (Raw plain))] None []"

definition ex_copy :: model where
  "ex_copy = Model 4 ''Copy'' [(''id'', FieldInstance (Raw plain))] None []"

definition ex_child :: model where
  "ex_child = Model 5 ''Child'' [(''age'', FieldInstance (Raw plain))] None [ex_base, ex_other]"

definition disc :: attrs where
  "disc = \<lparr>required = True, default_v = VNull, attribute = None, discriminator = True\<rparr>"

definition ex_base_mutated :: model where
  "ex_base_mutated = Model 1 ''Base''
     [(''id'', FieldInstance (Raw plain)), (''email'', FieldInstance (Raw plain))] None []"





definition ex_parent :: model where
  "ex_parent = Model 10 ''Parent'' [(''kind'', FieldInstance (Raw disc))] None []"




definition ex_heir :: model where
  "ex_heir = Model 14 ''Child'' [(''age'', FieldInstance (Raw plain))] None [ex_parent]"

definition ex_orphan :: model where
  "ex_orphan = Model 14 ''Child'' [(''age'', FieldInstance (Raw plain))] None []"

text \<open>A model whose fields are given as descriptor classes.\<close>

definition ex_typed :: model where
  "ex_typed = Model 15 ''Typed''
     [(''kind'', FieldClass (Raw disc)), (''note'', FieldClass (Raw plain)),
      (''code'', FieldClass (Raw (plain\<lparr>required := True\<rparr>)))] (Some ''{kind}'') []"

subsection \<open>Example field mappings and data\<close>

text \<open>An example coercion, Python's \<open>bool(value)\<close>.\<close>

fun boolean_format :: "val \<Rightarrow> val" where
  "boolean_format VNull = VBool False"
| "boolean_format (VBool b) = VBool b"
| "boolean_format (VInt n) = VBool (n \<noteq> 0)"
| "boolean_format (VStr s) = VBool (s \<noteq> [])"
| "boolean_format (VList vs) = VBool (vs \<noteq> [])"
| "boolean_format (VDict kvs) = VBool (kvs \<noteq> [])"

definition ex_fields :: "(string \<times> field) list" where
  "ex_fields =
     [(''foo'', FieldClass (Raw plain)),
      (''fee'', FieldInstance (Nested plain
         [(''fye'', FieldClass (Scalar plain boolean_format)),
          (''blah'', FieldInstance (Raw plain))] False False))]"

definition ex_data :: val where
  "ex_data =
     VDict [(''foo'', VStr ''bar''), (''bat'', VStr ''baz''),
            (''fee'', VDict [(''blah'', VStr ''cool''), (''fye'', VNull)])]"

definition ex_renamed :: "(string \<times> field) list" where
  "ex_renamed = [(''foo'', FieldInstance (Raw (plain\<lparr>attribute := Some ''bar''\<rparr>)))]"

text \<open>An example coercion that is not idempotent.\<close>

fun successor_format :: "val \<Rightarrow> val" where
  "successor_format (VInt n) = VInt (n + 1)"
| "successor_format v = v"

definition ex_counting :: "(string \<times> field) list" where
  "ex_counting = [(''n'', FieldInstance (Scalar plain successor_format))]"

definition ex_defaulted :: "(string \<times> field) list" where
  "ex_defaulted =
     [(''fee'', FieldInstance (Nested plain
         [(''foo'', FieldInstance (Raw (plain\<lparr>default_v := VInt 5\<rparr>)))] False True))]"

section \<open>Inheritance and ancestors\<close>

lemma ancestors_name: "name m \<in> ancestors m"
  by (cases m) simp

lemma ancestors_parent: "p \<in> set (parents m) \<Longrightarrow> ancestors p \<subseteq> ancestors m"
  by (cases m) auto

text \<open>
  C1, as the code has it. \<open>inherit\<close> keeps all its arguments but the last as parents; the
  last one only supplies the items of the new model. For every model \<open>B\<close> among the
  arguments before the last, the ancestors of the new model \<open>A\<close> contain the ancestors of
  \<open>B\<close> and the name of \<open>A\<close>, and in particular the name of \<open>B\<close>.
\<close>

theorem inherit_ancestors:
  assumes "inherit oid nm ps = Inr A" and "B \<in> set (butlast ps)"
  shows "ancestors B \<union> {name A} \<subseteq> ancestors A \<and> name B \<in> ancestors A"
proof -
  from assms(1) have A: "A = Model oid nm (dict_of (items (last ps))) None (butlast ps)"
    by (auto simp: inherit_def split: if_splits)
  with assms(2) have "B \<in> set (parents A)" by simp
  then have sub: "ancestors B \<subseteq> ancestors A" by (rule ancestors_parent)
  moreover have "name B \<in> ancestors B" by (rule ancestors_name)
  moreover have "name A \<in> ancestors A" by (rule ancestors_name)
  ultimately show ?thesis by auto
qed

theorem inherit_ancestors_witness:
  "inherit 5 ''Child'' [ex_base, ex_extra]
     = Inr (Model 5 ''Child'' [(''age'', FieldInstance (Raw plain))] None [ex_base])
   \<and> ex_base \<in> set (butlast [ex_base, ex_extra])
   \<and> ancestors ex_base \<union> {''Child''} \<subseteq> {''Child'', ''Base''}
   \<and> name ex_base \<in> {''Child'', ''Base''}"
proof -
  have h1: "inherit 5 ''Child'' [ex_base, ex_extra]
     = Inr (Model 5 ''Child'' [(''age'', FieldInstance (Raw plain))] None [ex_base])"
    by (simp add: inherit_def dict_of_def ex_extra_def)
  have h2: "ex_base \<in> set (butlast [ex_base, ex_extra])" by simp
  from inherit_ancestors [OF h1 h2] h1 h2 show ?thesis
    by (simp add: ex_base_def)
qed

lemma instance_inherit_ancestors:
  assumes "instance_inherit B oid nm ps = Inr A" and "ps \<noteq> []"
  shows "name B \<in> ancestors A"
proof -
  from assms have A: "A = Model oid nm (dict_of (items (last ps))) None (B # butlast ps)"
    by (auto simp: instance_inherit_def inherit_def)
  have "name B \<in> ancestors B" by (rule ancestors_name)
  moreover have "ancestors B \<subseteq> ancestors A"
    by (rule ancestors_parent) (simp add: A)
  ultimately show ?thesis by auto
qed

text \<open>
  C1 as stated fails when \<open>B\<close> is the last argument: the model built by
  \<open>inherit('Copy', Base)\<close> has the items of \<open>Base\<close>, no parents, and \<open>Base\<close> is not among
  its ancestors.
\<close>

theorem inherit_last_not_ancestor:
  "inherit 4 ''Copy'' [ex_base] = Inr ex_copy
   \<and> \<not> (ancestors ex_base \<union> {name ex_copy} \<subseteq> ancestors ex_copy)
   \<and> name ex_base \<notin> ancestors ex_copy"
  by (simp add: inherit_def dict_of_def ex_base_def ex_copy_def)

section \<open>Looking a parent up by name\<close>

text \<open>
  When the search in the first parent raises, \<open>get_parent\<close> raises, whatever the other
  parents are.
\<close>

lemma get_parent_first_parent_raises:
  assumes "n \<noteq> nm" and "get_parent p nm = Inl e"
  shows "get_parent (Model i n fs mk (p # ps)) nm = Inl e"
  using assms by simp

text \<open>
  C4 at a model with two parents: the second parent is named \<open>Other\<close>, yet
  \<open>get_parent('Other')\<close> raises, because the search in the first parent raises before the
  loop reaches the second one.
\<close>

theorem get_parent_second_parent_raises:
  "ex_other \<in> set (parents ex_child)
   \<and> get_parent ex_child ''Other'' = Inl (ValueError ''Parent Other not found'')"
  by (simp add: ex_child_def ex_base_def ex_other_def)

section \<open>Resolution and the discriminator check\<close>

subsection \<open>Mappings and their shapes\<close>
















subsection \<open>States\<close>

lemma extends_refl: "extends s s"
  by (simp add: extends_def)

lemma extends_trans: "extends s t \<Longrightarrow> extends t u \<Longrightarrow> extends s u"
  by (auto simp: extends_def)



lemma cached_cong: "already_resolved s' = already_resolved s \<Longrightarrow> cached s' i = cached s i"
  by (simp add: cached_def)





lemma deepcopy_items_props:
  assumes "deepcopy_items s fs = (copies, s')"
  shows "extends s s' \<and> already_resolved s' = already_resolved s
         \<and> in_use s' copies \<and> shape_at s' copies = shape fs"
  using assms
proof (induction fs arbitrary: s copies s')
  case Nil
  then show ?case by (simp add: extends_refl in_use_def shape_at_def shape_def)
next
  case (Cons kf rest)
  let ?s1 = "s\<lparr>objects := (objects s)(fresh s \<mapsto> snd kf), fresh := Suc (fresh s)\<rparr>"
  obtain c0 where rec: "deepcopy_items ?s1 rest = (c0, s')"
    and copies: "copies = (fst kf, fresh s) # c0"
    using Cons.prems by (auto split: prod.splits)
  from Cons.IH [OF rec]
  have ih: "extends ?s1 s'" "already_resolved s' = already_resolved ?s1"
    "in_use s' c0" "shape_at s' c0 = shape rest" by auto
  have step: "extends s ?s1" by (simp add: extends_def discriminator_at_def)
  have ext: "extends s s'" using step ih(1) by (rule extends_trans)
  have "discriminator_at s' (fresh s) = discriminator_at ?s1 (fresh s)"
    using ih(1) by (simp add: extends_def)
  then have flag: "discriminator_at s' (fresh s) = is_discriminator (snd kf)"
    by (simp add: discriminator_at_def)
  have "fresh s < fresh s'" using ih(1) by (simp add: extends_def)
  then have use: "in_use s' copies" using ih(3) by (simp add: copies in_use_def)
  have "shape_at s' copies = shape (kf # rest)"
    using flag ih(4) by (simp add: copies shape_at_def shape_def)
  with ext ih(2) use show ?case by simp
qed

subsection \<open>The cache and the check\<close>






lemma already_set_default: "already_resolved (set_default_at s a nm) = already_resolved s"
  by (simp add: set_default_at_def split: option.splits)

lemma family_self: "m \<in> family m"
  by (cases m) simp




subsection \<open>Resolution\<close>



subsection \<open>Examples\<close>

lemmas resolved_eval =
  initial_def cached_def dict_of_def dict_update_def check_discriminator_def candidates_def
  discriminator_at_def set_default_at_def plain_def disc_def















subsection \<open>The discriminator check\<close>




section \<open>The resolution cache\<close>

lemma check_discriminator_caches:
  "check_discriminator i n s res = (Inr r, s') \<Longrightarrow> r \<noteq> [] \<Longrightarrow> cached s' i = Some r"
  by (auto simp: check_discriminator_def cached_def split: list.splits)

lemma resolved_caches:
  assumes "resolved s m = (Inr r, s')" and "r \<noteq> []"
  shows "cached s' (ident m) = Some r"
proof (cases m)
  case (Model i n fs mk ps)
  show ?thesis
  proof (cases "cached s i")
    case None
    with assms(1) Model obtain s2 res where "check_discriminator i n s2 res = (Inr r, s')"
      by (auto split: prod.splits sum.splits)
    then show ?thesis using assms(2) Model by (simp add: check_discriminator_caches)
  next
    case (Some r0)
    with assms(1) Model show ?thesis by auto
  qed
qed

text \<open>
  C2, as the code has it. Once an access to \<open>resolved\<close> has returned a mapping that is not
  empty, the next access to \<open>resolved\<close> of the same object, whatever its own items and its
  parents have been changed to, returns that same mapping and leaves the state as it is:
  the change is not reflected.
\<close>

theorem resolved_cached:
  assumes "resolved s m = (Inr r, s')" and "r \<noteq> []" and "ident m' = ident m"
  shows "resolved s' m' = (Inr r, s')"
proof -
  from assms(1,2) have "cached s' (ident m) = Some r" by (rule resolved_caches)
  with assms(3) show ?thesis by (cases m') simp
qed

lemma resolved_ex_parent:
  "fst (resolved initial ex_parent) = Inr [(''kind'', 0)]
   \<and> view (snd (resolved initial ex_parent)) [(''kind'', 0)]
       = [(''kind'', Some (FieldInstance (Raw (disc\<lparr>default_v := VStr ''Parent''\<rparr>))))]
   \<and> objects (snd (resolved initial ex_parent))
       = [0 \<mapsto> FieldInstance (Raw (disc\<lparr>default_v := VStr ''Parent''\<rparr>))]
   \<and> fresh (snd (resolved initial ex_parent)) = 1
   \<and> already_resolved (snd (resolved initial ex_parent)) = [10 \<mapsto> [(''kind'', 0)]]"
  by (simp add: ex_parent_def view_def resolved_eval)

lemma resolved_ex_heir:
  "fst (resolved (snd (resolved initial ex_parent)) ex_heir) = Inr [(''age'', 1), (''kind'', 0)]
   \<and> view (snd (resolved (snd (resolved initial ex_parent)) ex_heir)) [(''kind'', 0)]
       = [(''kind'', Some (FieldInstance (Raw (disc\<lparr>default_v := VStr ''Child''\<rparr>))))]"
proof -
  obtain s1 where s1: "s1 = snd (resolved initial ex_parent)" by simp
  with resolved_ex_parent
  have "objects s1 = [0 \<mapsto> FieldInstance (Raw (disc\<lparr>default_v := VStr ''Parent''\<rparr>))]"
    "fresh s1 = 1" "already_resolved s1 = [10 \<mapsto> [(''kind'', 0)]]"
    by simp_all
  then have "fst (resolved s1 ex_heir) = Inr [(''age'', 1), (''kind'', 0)]
    \<and> view (snd (resolved s1 ex_heir)) [(''kind'', 0)]
       = [(''kind'', Some (FieldInstance (Raw (disc\<lparr>default_v := VStr ''Child''\<rparr>))))]"
    by (simp add: ex_heir_def ex_parent_def view_def cached_def dict_of_def dict_update_def
        check_discriminator_def candidates_def discriminator_at_def set_default_at_def
        plain_def disc_def)
  then show ?thesis unfolding s1 .
qed

theorem resolved_cached_witness:
  "fst (resolved (snd (resolved initial ex_parent)) ex_heir) = Inr [(''age'', 1), (''kind'', 0)]
   \<and> ident ex_orphan = ident ex_heir
   \<and> parents ex_orphan = [] \<and> parents ex_heir = [ex_parent]
   \<and> resolved (snd (resolved (snd (resolved initial ex_parent)) ex_heir)) ex_orphan
       = (Inr [(''age'', 1), (''kind'', 0)],
          snd (resolved (snd (resolved initial ex_parent)) ex_heir))"
proof -
  let ?s = "snd (resolved initial ex_parent)"
  have h1: "resolved ?s ex_heir = (Inr [(''age'', 1), (''kind'', 0)], snd (resolved ?s ex_heir))"
    using resolved_ex_heir by (simp add: prod_eq_iff)
  have h2: "[(''age'', 1::nat), (''kind'', 0)] \<noteq> []" by simp
  have h3: "ident ex_orphan = ident ex_heir" by (simp add: ex_orphan_def ex_heir_def)
  from resolved_cached [OF h1 h2 h3] resolved_ex_heir h3 show ?thesis
    by (simp add: ex_orphan_def ex_heir_def)
qed

text \<open>
  C2 as stated fails: \<open>Base\<close> is resolved, the field \<open>email\<close> is added to the same object,
  and the next access to \<open>resolved\<close> returns the mapping without \<open>email\<close>. Resolved for the
  first time, the changed model has the field.
\<close>

theorem resolved_stale_after_mutation:
  "fst (resolved initial ex_base) = Inr [(''id'', 0)]
   \<and> ident ex_base_mutated = ident ex_base
   \<and> map fst (items ex_base_mutated) = [''id'', ''email'']
   \<and> fst (resolved (snd (resolved initial ex_base)) ex_base_mutated) = Inr [(''id'', 0)]
   \<and> fst (resolved initial ex_base_mutated) = Inr [(''id'', 0), (''email'', 1)]"
proof -
  have first: "fst (resolved initial ex_base) = Inr [(''id'', 0)]
     \<and> cached (snd (resolved initial ex_base)) 1 = Some [(''id'', 0)]"
    by (simp add: ex_base_def resolved_eval)
  then have "fst (resolved (snd (resolved initial ex_base)) ex_base_mutated) = Inr [(''id'', 0)]"
    by (simp add: ex_base_mutated_def)
  moreover have "fst (resolved initial ex_base_mutated) = Inr [(''id'', 0), (''email'', 1)]"
    by (simp add: ex_base_mutated_def resolved_eval)
  ultimately show ?thesis using first by (simp add: ex_base_mutated_def ex_base_def)
qed

text \<open>
  An entry of the cache that is not empty stays as it is through every later access to
  \<open>resolved\<close>, of any model: \<open>_resolved\<close> writes an entry only where it found none. So
  the mapping that an access has returned is returned again after any number of other
  accesses.
\<close>

lemma check_discriminator_keeps:
  "i \<noteq> j \<Longrightarrow> cached (snd (check_discriminator i n s res)) j = cached s j"
  by (simp add: check_discriminator_def cached_def already_set_default split: list.splits)

lemma cached_persists:
  "cached s j = Some r \<Longrightarrow> cached (snd (resolved s m)) j = Some r"
  "cached s j = Some r \<Longrightarrow> cached (snd (resolve_parents s res ps)) j = Some r"
proof (induction s m and s res ps rule: resolved_resolve_parents.induct)
  case (1 s i n fs mk ps)
  show ?case
  proof (cases "cached s i")
    case (Some r0)
    with "1.prems" show ?thesis by simp
  next
    case None
    with "1.prems" have ij: "i \<noteq> j" by auto
    obtain copies s1 where dc: "deepcopy_items s fs = (copies, s1)"
      by (cases "deepcopy_items s fs")
    from deepcopy_items_props [OF dc] have "already_resolved s1 = already_resolved s" by simp
    then have "cached s1 j = cached s j" by (rule cached_cong)
    with "1.prems" have c1: "cached s1 j = Some r" by simp
    obtain out s2 where rp: "resolve_parents s1 (dict_of copies) ps = (out, s2)"
      by (cases "resolve_parents s1 (dict_of copies) ps")
    from "1.IH" [OF None dc [symmetric] c1] rp have c2: "cached s2 j = Some r" by simp
    show ?thesis
    proof (cases out)
      case (Inl e)
      with None dc rp c2 show ?thesis by simp
    next
      case (Inr res')
      with None dc rp have "resolved s (Model i n fs mk ps) = check_discriminator i n s2 res'"
        by simp
      with check_discriminator_keeps [OF ij, of n s2 res'] c2 show ?thesis by simp
    qed
  qed
next
  case (2 s res)
  then show ?case by simp
next
  case (3 s res p ps)
  obtain out s' where rp: "resolved s p = (out, s')" by (cases "resolved s p")
  from "3.IH"(1) [OF "3.prems"] rp have c: "cached s' j = Some r" by simp
  show ?case
  proof (cases out)
    case (Inl e)
    with rp c show ?thesis by simp
  next
    case (Inr r')
    from "3.IH"(2) [OF rp [symmetric] Inr c] rp Inr show ?thesis by simp
  qed
qed

lemma cached_accesses: "cached s j = Some r \<Longrightarrow> cached (accesses s ms) j = Some r"
  by (induction ms arbitrary: s) (simp_all add: cached_persists(1))

lemma resolved_cached_later:
  assumes "resolved s m = (Inr r, s')" and "r \<noteq> []" and "ident m' = ident m"
  shows "resolved (accesses s' ms) m' = (Inr r, accesses s' ms)"
proof -
  from assms(1,2) have "cached s' (ident m) = Some r" by (rule resolved_caches)
  then have "cached (accesses s' ms) (ident m) = Some r" by (rule cached_accesses)
  with assms(3) show ?thesis by (cases m') simp
qed

text \<open>
  The cached mapping is the same object at every access, but its descriptors are shared
  with the mappings of the children: resolving \<open>Child\<close> writes its name into the
  discriminator of the cached mapping of \<open>Parent\<close>.
\<close>

lemma resolved_child_writes_parent:
  "fst (resolved initial ex_parent) = Inr [(''kind'', 0)]
   \<and> view (snd (resolved initial ex_parent)) [(''kind'', 0)]
       = [(''kind'', Some (FieldInstance (Raw (disc\<lparr>default_v := VStr ''Parent''\<rparr>))))]
   \<and> fst (resolved (snd (resolved initial ex_parent)) ex_heir) = Inr [(''age'', 1), (''kind'', 0)]
   \<and> view (snd (resolved (snd (resolved initial ex_parent)) ex_heir)) [(''kind'', 0)]
       = [(''kind'', Some (FieldInstance (Raw (disc\<lparr>default_v := VStr ''Child''\<rparr>))))]"
  using resolved_ex_parent resolved_ex_heir by simp

section \<open>Descriptor classes\<close>

subsection \<open>The schema fragment\<close>

lemma schema_fold:
  "foldl (schema_loop fschema) (props, req, dsc) fs
     = (foldl (\<lambda>d kv. AList.update (fst kv) (snd kv) d) props
          (map (\<lambda>kf. (fst kf, fschema (instance_of (snd kf)))) fs),
        foldl (\<lambda>r kf. if required (attrs_of (instance_of (snd kf)))
                       then List.insert (fst kf) r else r) req fs,
        foldl (\<lambda>d kf. if discriminator (attrs_of (instance_of (snd kf)))
                       then Some (fst kf) else d) dsc fs)"
  by (induction fs arbitrary: props req dsc) (simp_all add: schema_loop_def Let_def)

lemma required_fold_set:
  "set (foldl (\<lambda>r kf. if R kf then List.insert (fst kf) r else r) req fs)
     = set req \<union> fst ` {kf \<in> set fs. R kf}"
  by (induction fs arbitrary: req) auto

lemma required_fold_distinct:
  "distinct req \<Longrightarrow> distinct (foldl (\<lambda>r kf. if R kf then List.insert (fst kf) r else r) req fs)"
  by (induction fs arbitrary: req) simp_all

lemma sort_unique:
  fixes xs ys :: "'a::linorder list"
  assumes "distinct xs" and "distinct ys" and "set xs = set ys"
  shows "sort xs = sort ys"
  using assms by (intro sorted_distinct_set_unique) simp_all

lemma required_fold_sort:
  fixes fs :: "('a::linorder \<times> 'b) list"
  shows "sort (foldl (\<lambda>r kf. if R kf then List.insert (fst kf) r else r) [] fs)
     = sort (remdups (map fst (filter R fs)))"
proof (rule sort_unique)
  show "distinct (foldl (\<lambda>r kf. if R kf then List.insert (fst kf) r else r) [] fs)"
    by (rule required_fold_distinct) simp
  show "distinct (remdups (map fst (filter R fs)))" by simp
  show "set (foldl (\<lambda>r kf. if R kf then List.insert (fst kf) r else r) [] fs)
          = set (remdups (map fst (filter R fs)))"
    by (simp only: required_fold_set) auto
qed

lemma discriminator_fold:
  "foldl (\<lambda>d kf. if D kf then Some (fst kf) else d) dsc fs
     = (case filter D fs of [] \<Rightarrow> dsc | kfs \<Rightarrow> Some (fst (last kfs)))"
  by (induction fs rule: rev_induct) (auto split: list.splits)

lemma own_schema_fields:
  "frag_properties (own_schema fschema m)
     = dict_of (map (\<lambda>kf. (fst kf, fschema (instance_of (snd kf)))) (items m))"
  "frag_required (own_schema fschema m)
     = (let req = sort (remdups (map fst
                    (filter (\<lambda>kf. required (attrs_of (instance_of (snd kf)))) (items m))))
        in if req = [] then None else Some req)"
  "frag_discriminator (own_schema fschema m)
     = (case filter (\<lambda>kf. discriminator (attrs_of (instance_of (snd kf)))) (items m) of
          [] \<Rightarrow> None
        | kfs \<Rightarrow> Some (fst (last kfs)))"
  by (simp_all add: own_schema_def schema_fold dict_of_def required_fold_sort
      discriminator_fold Let_def)

lemma schema_loop_instantiated:
  "schema_loop fschema st (instantiated kf) = schema_loop fschema st kf"
  by (simp add: schema_loop_def instantiated_def)

lemma schema_fold_instantiated:
  "foldl (schema_loop fschema) st (map instantiated fs) = foldl (schema_loop fschema) st fs"
  by (induction fs arbitrary: st) (simp_all add: schema_loop_instantiated)

subsection \<open>Marshalling\<close>

lemma source_value_instantiated: "source_value (instantiated kf) data = source_value kf data"
  by (simp add: source_value_def instantiated_def Let_def split: option.splits)

lemma marshal_fields_instantiated:
  "marshal_fields sn (map instantiated fs) data = marshal_fields sn fs data"
proof (induction fs)
  case Nil
  show ?case by simp
next
  case (Cons kf fs)
  have "instance_of (snd (instantiated kf)) = instance_of (snd kf)"
    and "fst (instantiated kf) = fst kf"
    by (simp_all add: instantiated_def)
  with Cons show ?case
    by (cases sn) (simp_all add: marshal_fields_Cons source_value_instantiated Let_def)
qed

lemma marshal_payload_instantiated:
  "marshal_payload sn (map instantiated fs) data = marshal_payload sn fs data"
  by (simp add: marshal_payload_def marshal_fields_instantiated split: val.splits)

text \<open>
  C10. \<open>_schema\<close> applies \<open>instance\<close> to each field and reads the instance: the properties
  are the fragments of the instances, under the field names; the required names are the
  names of the fields whose instance is required, sorted, and left out when there is none;
  the discriminator is the name of the last field whose instance is a discriminator. So
  the fragment of a model is the fragment of the same model with every field replaced by
  its instance. Marshalling takes a descriptor class as the instance it builds: the output
  of a class field is the transform of that instance at the source value, and marshalling
  through a field mapping gives the result of marshalling through the mapping with every
  field replaced by its instance.
\<close>

theorem descriptor_classes_instantiated:
  "instance_of (FieldClass d) = instance_of (FieldInstance d)
   \<and> frag_properties (own_schema fschema m)
       = dict_of (map (\<lambda>kf. (fst kf, fschema (instance_of (snd kf)))) (items m))
   \<and> frag_required (own_schema fschema m)
       = (let req = sort (remdups (map fst
                      (filter (\<lambda>kf. required (attrs_of (instance_of (snd kf)))) (items m))))
          in if req = [] then None else Some req)
   \<and> frag_discriminator (own_schema fschema m)
       = (case filter (\<lambda>kf. discriminator (attrs_of (instance_of (snd kf)))) (items m) of
            [] \<Rightarrow> None
          | kfs \<Rightarrow> Some (fst (last kfs)))
   \<and> own_schema fschema (Model i n fs mk ps)
       = own_schema fschema (Model i n (map instantiated fs) mk ps)
   \<and> marshal_fields skip_none ((k, FieldClass d) # fs) x
       = (let out = field_output skip_none d (source_value (k, FieldInstance d) x)
          in if skip_none \<and> out = VNull then marshal_fields skip_none fs x
             else (k, out) # marshal_fields skip_none fs x)
   \<and> marshal data fs envelope skip_none = marshal data (map instantiated fs) envelope skip_none"
proof -
  have "marshal data fs envelope skip_none = marshal data (map instantiated fs) envelope skip_none"
    by (cases data) (simp_all add: marshal_payload_instantiated)
  moreover have "source_value (k, FieldClass d) x = source_value (k, FieldInstance d) x"
    by (simp add: source_value_def Let_def split: option.splits)
  then have "marshal_fields skip_none ((k, FieldClass d) # fs) x
       = (let out = field_output skip_none d (source_value (k, FieldInstance d) x)
          in if skip_none \<and> out = VNull then marshal_fields skip_none fs x
             else (k, out) # marshal_fields skip_none fs x)"
    by (cases skip_none) (simp_all add: marshal_fields_Cons Let_def)
  moreover have "own_schema fschema (Model i n fs mk ps)
       = own_schema fschema (Model i n (map instantiated fs) mk ps)"
    by (simp add: own_schema_def schema_fold_instantiated)
  ultimately show ?thesis
    using own_schema_fields [of fschema m] by simp
qed

theorem descriptor_classes_instantiated_witness:
  "frag_properties (own_schema attrs_of ex_typed)
     = [(''kind'', disc), (''note'', plain), (''code'', plain\<lparr>required := True\<rparr>)]
   \<and> frag_required (own_schema attrs_of ex_typed) = Some [''code'', ''kind'']
   \<and> frag_discriminator (own_schema attrs_of ex_typed) = Some ''kind''
   \<and> marshal (Payload (VDict [(''foo'', VStr ''bar''), (''bat'', VStr ''baz'')]))
       [(''foo'', FieldClass (Raw plain))] None False
       = Payload (VDict [(''foo'', VStr ''bar'')])
   \<and> marshal (Payload (VDict [(''foo'', VStr ''bar''), (''bat'', VStr ''baz'')]))
       [(''foo'', FieldInstance (Raw plain))] None False
       = Payload (VDict [(''foo'', VStr ''bar'')])"
proof -
  note inst = descriptor_classes_instantiated
    [of "Raw plain" attrs_of ex_typed 0 "''m''" "[(''foo'', FieldClass (Raw plain))]" None "[]"
        False "''foo''" "VDict [(''foo'', VStr ''bar''), (''bat'', VStr ''baz'')]"
        "Payload (VDict [(''foo'', VStr ''bar''), (''bat'', VStr ''baz'')])" None]
  have props: "frag_properties (own_schema attrs_of ex_typed)
     = [(''kind'', disc), (''note'', plain), (''code'', plain\<lparr>required := True\<rparr>)]"
    using inst by (simp add: ex_typed_def dict_of_def)
  have req: "frag_required (own_schema attrs_of ex_typed) = Some [''code'', ''kind'']"
    using inst by (simp add: ex_typed_def plain_def disc_def)
  have dis: "frag_discriminator (own_schema attrs_of ex_typed) = Some ''kind''"
    using inst by (simp add: ex_typed_def plain_def disc_def)
  have built: "marshal (Payload (VDict [(''foo'', VStr ''bar''), (''bat'', VStr ''baz'')]))
     [(''foo'', FieldInstance (Raw plain))] None False
     = Payload (VDict [(''foo'', VStr ''bar'')])"
    by (simp add: marshal_payload_def marshal_fields_Cons source_value_def get_value_def
        envelop_def plain_def)
  from inst
  have "marshal (Payload (VDict [(''foo'', VStr ''bar''), (''bat'', VStr ''baz'')]))
     [(''foo'', FieldClass (Raw plain))] None False
     = marshal (Payload (VDict [(''foo'', VStr ''bar''), (''bat'', VStr ''baz'')]))
     [(''foo'', FieldInstance (Raw plain))] None False"
    by (simp add: instantiated_def)
  with props req dis built show ?thesis by simp
qed

text \<open>
  \<open>_resolved\<close>, in contrast, reads \<open>discriminator\<close> from the field as it is stored: the
  class field \<open>kind\<close> of \<open>Typed\<close> is the discriminator of its schema fragment and no
  candidate of its resolution.
\<close>

lemma resolved_reads_stored_field:
  "frag_discriminator (own_schema fschema ex_typed) = Some ''kind''
   \<and> discriminators (flat ex_typed) = []"
  by (simp add: own_schema_fields ex_typed_def discriminators_def dict_of_def plain_def disc_def)

section \<open>Marshalling with \<open>skip_none\<close>\<close>

lemma keys_marshal_fields: "fst ` set (marshal_fields sn fs x) \<subseteq> fst ` set fs"
proof (induction fs)
  case Nil
  show ?case by simp
next
  case (Cons kf fs)
  have "fst ` set (marshal_fields sn (kf # fs) x)
          \<subseteq> insert (fst kf) (fst ` set (marshal_fields sn fs x))"
    by (auto simp: marshal_fields_Cons Let_def)
  also have "\<dots> \<subseteq> insert (fst kf) (fst ` set fs)"
    using Cons by blast
  finally show ?case by simp
qed

lemma map_of_append_fresh: "k \<notin> fst ` set pre \<Longrightarrow> map_of (pre @ kvs) k = map_of kvs k"
  by (induction pre) auto

lemma map_of_fresh: "k \<notin> fst ` set kvs \<Longrightarrow> map_of kvs k = None"
  by (simp add: map_of_eq_None_iff)

lemma values_marshal_fields: "VNull \<notin> snd ` set (marshal_fields True fs x)"
  by (induction fs) (auto simp: marshal_fields_Cons Let_def)

lemma skip_clean:
  "wf_descriptor d \<Longrightarrow> no_null_value d (field_output True d v)"
  "wf_fields fs \<Longrightarrow> fst ` set pre \<inter> fst ` set fs = {} \<Longrightarrow>
     no_null_fields fs (pre @ marshal_fields True fs x)"
proof (induction d and fs arbitrary: v and pre x rule: wf_descriptor_wf_fields.induct)
  case (1 a)
  then show ?case by simp
next
  case (2 a coerce)
  then show ?case by simp
next
  case (3 a f)
  then show ?case by (cases v) (auto simp: list_all_iff)
next
  case (4 a fs allow_null skip_none)
  from 4(1) [of "[]"] 4(2) show ?case
    by (auto simp: values_marshal_fields)
next
  case 5
  then show ?case by simp
next
  case (6 kf rest)
  let ?d = "instance_of (snd kf)"
  let ?out = "field_output True ?d (source_value kf x)"
  from 6(3) have k_rest: "fst kf \<notin> fst ` set rest" and wd: "wf_descriptor ?d" and wr: "wf_fields rest"
    by auto
  from 6(4) have k_pre: "fst kf \<notin> fst ` set pre" and pre_rest: "fst ` set pre \<inter> fst ` set rest = {}"
    by auto
  have k_out: "fst kf \<notin> fst ` set (marshal_fields True rest x)"
    using k_rest keys_marshal_fields [of True rest x] by auto
  show ?case
  proof (cases "?out = VNull")
    case True
    have "map_of (pre @ marshal_fields True rest x) (fst kf) = None"
      using map_of_append_fresh [OF k_pre] map_of_fresh [OF k_out] by simp
    moreover have "no_null_fields rest (pre @ marshal_fields True rest x)"
      by (rule 6(2) [OF wr pre_rest])
    ultimately show ?thesis using True by (simp add: marshal_fields_Cons Let_def del: map_of_append)
  next
    case False
    have look: "map_of (pre @ (fst kf, ?out) # marshal_fields True rest x) (fst kf) = Some ?out"
      using map_of_append_fresh [OF k_pre, of "(fst kf, ?out) # marshal_fields True rest x"] by simp
    have "fst ` set (pre @ [(fst kf, ?out)]) \<inter> fst ` set rest = {}"
      using pre_rest k_rest by auto
    from 6(2) [OF wr this, of x]
    have "no_null_fields rest (pre @ (fst kf, ?out) # marshal_fields True rest x)" by simp
    with look False 6(1) [OF wd] show ?thesis by (simp add: marshal_fields_Cons Let_def del: map_of_append)
  qed
qed


text \<open>
  C8. For every field mapping (each key once, at every depth) and every data, the result
  of \<open>marshal\<close> with \<open>skip_none=True\<close> holds no field whose value is null: not in the
  mapping itself, not in the mappings of a sequence, not in a nested sub-object and not in
  the sub-objects of a list.
\<close>

theorem marshal_skip_none_no_null:
  assumes "wf_fields fs"
  shows "no_null_output fs (payload_of (marshal data fs None True))"
proof -
  have one: "no_null_mapping fs (VDict (marshal_fields True fs y))" for y
    using skip_clean(2) [OF assms, of "[]" y]
    by (simp add: no_null_mapping_def values_marshal_fields)
  have payload: "no_null_output fs (marshal_payload True fs v)" for v
  proof (cases v)
    case (VList xs)
    then show ?thesis
      by (simp add: marshal_payload_def no_null_output_def one list_all_iff)
  qed (simp_all add: marshal_payload_def no_null_output_def one)
  show ?thesis
  proof (cases data)
    case (Payload v)
    with payload [of v] show ?thesis by (simp add: envelop_def)
  next
    case (Triple v st h)
    with payload [of v] show ?thesis by (simp add: envelop_def)
  qed
qed

lemma wf_ex_fields: "wf_fields ex_fields"
  by (simp add: ex_fields_def)

theorem marshal_skip_none_no_null_witness:
  "wf_fields ex_fields
   \<and> marshal (Payload ex_data) ex_fields None True
       = Payload (VDict [(''foo'', VStr ''bar''), (''fee'', VDict [(''blah'', VStr ''cool'')])])
   \<and> no_null_output ex_fields
       (VDict [(''foo'', VStr ''bar''), (''fee'', VDict [(''blah'', VStr ''cool'')])])"
proof -
  have m: "marshal (Payload ex_data) ex_fields None True
       = Payload (VDict [(''foo'', VStr ''bar''), (''fee'', VDict [(''blah'', VStr ''cool'')])])"
    by (simp add: ex_data_def ex_fields_def marshal_payload_def marshal_fields_Cons
        source_value_def get_value_def envelop_def plain_def)
  from marshal_skip_none_no_null [OF wf_ex_fields, of "Payload ex_data"] m wf_ex_fields
  show ?thesis by simp
qed

section \<open>Marshalling twice\<close>

lemma field_output_null:
  "field_output sn d v = VNull \<Longrightarrow> field_output sn d VNull = VNull"
  by (cases d; cases v) (auto split: if_splits)

lemma source_value_own:
  assumes "attribute (attrs_of (instance_of (snd kf))) \<in> {None, Some (fst kf)}"
  shows "source_value kf (VDict kvs) =
           (case map_of kvs (fst kf) of
              None \<Rightarrow> default_v (attrs_of (instance_of (snd kf)))
            | Some v \<Rightarrow> v)"
  using assms by (auto simp: source_value_def get_value_def Let_def)

lemma marshal_stable:
  "stable_descriptor sn d \<Longrightarrow> field_output sn d (field_output sn d v) = field_output sn d v"
  "stable_fields sn fs \<Longrightarrow> fst ` set pre \<inter> fst ` set fs = {} \<Longrightarrow>
     marshal_fields sn fs (VDict (pre @ marshal_fields sn fs x)) = marshal_fields sn fs x"
proof (induction sn d and sn fs arbitrary: v and pre x rule: stable_descriptor_stable_fields.induct)
  case (1 sn a)
  show ?case by simp
next
  case (2 sn a coerce)
  then show ?case by simp
next
  case (3 sn a f)
  then show ?case by (cases v) simp_all
next
  case (4 sn a fs allow_null skip_none)
  from 4(2) have st: "stable_fields (sn \<or> skip_none) fs" by simp
  from 4(1) [OF st, of "[]"] show ?case by simp
next
  case (5 sn)
  show ?case by simp
next
  case (6 sn kf rest)
  let ?d = "instance_of (snd kf)"
  let ?out = "field_output sn ?d (source_value kf x)"
  from 6(3) have k_rest: "fst kf \<notin> fst ` set rest"
    and own: "attribute (attrs_of ?d) \<in> {None, Some (fst kf)}"
    and dflt: "sn \<longrightarrow> default_v (attrs_of ?d) = VNull"
    and sd: "stable_descriptor sn ?d" and sr: "stable_fields sn rest"
    by auto
  from 6(4) have k_pre: "fst kf \<notin> fst ` set pre"
    and pre_rest: "fst ` set pre \<inter> fst ` set rest = {}"
    by auto
  have k_out: "fst kf \<notin> fst ` set (marshal_fields sn rest x)"
    using k_rest keys_marshal_fields [of sn rest x] by auto
  show ?case
  proof (cases "sn \<and> ?out = VNull")
    case True
    then have R: "marshal_fields sn (kf # rest) x = marshal_fields sn rest x"
      by (auto simp: marshal_fields_Cons Let_def)
    have "map_of (pre @ marshal_fields sn rest x) (fst kf) = None"
      using map_of_append_fresh [OF k_pre] map_of_fresh [OF k_out] by simp
    then have src: "source_value kf (VDict (pre @ marshal_fields sn rest x)) = VNull"
      using dflt True by (simp add: source_value_own [OF own] del: map_of_append)
    have null: "field_output sn ?d VNull = VNull"
      using True by (auto dest: field_output_null)
    have "marshal_fields sn (kf # rest) (VDict (pre @ marshal_fields sn rest x))
        = marshal_fields sn rest (VDict (pre @ marshal_fields sn rest x))"
      using src null True by (simp add: marshal_fields_Cons Let_def)
    also have "\<dots> = marshal_fields sn rest x"
      by (rule 6(2) [OF sr pre_rest])
    finally show ?thesis unfolding R .
  next
    case False
    then have R: "marshal_fields sn (kf # rest) x = (fst kf, ?out) # marshal_fields sn rest x"
      by (auto simp: marshal_fields_Cons Let_def)
    have "map_of (pre @ (fst kf, ?out) # marshal_fields sn rest x) (fst kf) = Some ?out"
      using map_of_append_fresh [OF k_pre, of "(fst kf, ?out) # marshal_fields sn rest x"] by simp
    then have src: "source_value kf (VDict (pre @ (fst kf, ?out) # marshal_fields sn rest x)) = ?out"
      by (simp add: source_value_own [OF own] del: map_of_append)
    have again: "field_output sn ?d ?out = ?out"
      by (rule 6(1) [OF sd])
    have "fst ` set (pre @ [(fst kf, ?out)]) \<inter> fst ` set rest = {}"
      using pre_rest k_rest by auto
    from 6(2) [OF sr this, of x]
    have ih: "marshal_fields sn rest (VDict (pre @ (fst kf, ?out) # marshal_fields sn rest x))
        = marshal_fields sn rest x" by simp
    have "marshal_fields sn (kf # rest) (VDict (pre @ (fst kf, ?out) # marshal_fields sn rest x))
        = (fst kf, ?out) # marshal_fields sn rest (VDict (pre @ (fst kf, ?out) # marshal_fields sn rest x))"
      using src again False by (auto simp: marshal_fields_Cons Let_def)
    also have "\<dots> = (fst kf, ?out) # marshal_fields sn rest x"
      by (simp only: ih)
    finally show ?thesis unfolding R .
  qed
qed

text \<open>
  C7, as the model of the specification has it. For a field mapping in which, at every
  depth, each key occurs once, no field has an attribute override other than its own name,
  every scalar coercion is idempotent and every field that \<open>skip_none\<close> can leave out has
  the default null, marshalling the result of \<open>marshal\<close> again through the same mapping
  (no envelope) gives that result.
\<close>

theorem marshal_idempotent:
  assumes "stable_fields sn fs"
  shows "marshal (marshal x fs None sn) fs None sn = marshal x fs None sn"
proof -
  have one: "marshal_fields sn fs (VDict (marshal_fields sn fs y)) = marshal_fields sn fs y" for y
    using marshal_stable(2) [OF assms, of "[]" y] by simp
  have payload: "marshal_payload sn fs (marshal_payload sn fs v) = marshal_payload sn fs v" for v
    by (cases v) (simp_all add: marshal_payload_def one)
  show ?thesis
  proof (cases x)
    case (Payload v)
    with payload [of v] show ?thesis by (simp add: envelop_def)
  next
    case (Triple v st h)
    with payload [of v] show ?thesis by (simp add: envelop_def)
  qed
qed

lemma boolean_format_idem: "boolean_format (boolean_format v) = boolean_format v"
  by (cases v) simp_all

lemma stable_ex_fields: "stable_fields False ex_fields"
  by (simp add: ex_fields_def plain_def boolean_format_idem)

theorem marshal_idempotent_witness:
  "stable_fields False ex_fields
   \<and> marshal (Payload ex_data) ex_fields None False
       = Payload (VDict [(''foo'', VStr ''bar''),
                         (''fee'', VDict [(''fye'', VNull), (''blah'', VStr ''cool'')])])
   \<and> marshal (Payload (VDict [(''foo'', VStr ''bar''),
                         (''fee'', VDict [(''fye'', VNull), (''blah'', VStr ''cool'')])]))
        ex_fields None False
       = Payload (VDict [(''foo'', VStr ''bar''),
                         (''fee'', VDict [(''fye'', VNull), (''blah'', VStr ''cool'')])])"
proof -
  have m: "marshal (Payload ex_data) ex_fields None False
       = Payload (VDict [(''foo'', VStr ''bar''),
                         (''fee'', VDict [(''fye'', VNull), (''blah'', VStr ''cool'')])])"
    by (simp add: ex_data_def ex_fields_def marshal_payload_def marshal_fields_Cons
        source_value_def get_value_def envelop_def plain_def)
  from marshal_idempotent [OF stable_ex_fields, of "Payload ex_data"] m stable_ex_fields
  show ?thesis by simp
qed

text \<open>
  C7 as stated fails for a field that reads another key than its name. The field \<open>foo\<close>
  has the attribute \<open>bar\<close>: the first pass copies the value of \<open>bar\<close> to \<open>foo\<close>, the
  second pass finds no \<open>bar\<close> in the result and writes the default.
\<close>

theorem marshal_attribute_not_idempotent:
  "marshal (Payload (VDict [(''bar'', VStr ''v'')])) ex_renamed None False
     = Payload (VDict [(''foo'', VStr ''v'')])
   \<and> marshal (Payload (VDict [(''foo'', VStr ''v'')])) ex_renamed None False
     = Payload (VDict [(''foo'', VNull)])
   \<and> marshal (marshal (Payload (VDict [(''bar'', VStr ''v'')])) ex_renamed None False)
        ex_renamed None False
     \<noteq> marshal (Payload (VDict [(''bar'', VStr ''v'')])) ex_renamed None False"
  by (simp add: ex_renamed_def marshal_payload_def marshal_fields_Cons source_value_def
      get_value_def envelop_def plain_def)

text \<open>
  The other conditions of \<open>stable_fields\<close> are needed as well: a coercion that is not
  idempotent is applied once more by the second pass, and a field with a default other
  than null that \<open>skip_none\<close> has left out comes back with its default.
\<close>

lemma marshal_coercion_not_idempotent:
  "marshal (Payload (VDict [(''n'', VInt 1)])) ex_counting None False
     = Payload (VDict [(''n'', VInt 2)])
   \<and> marshal (Payload (VDict [(''n'', VInt 2)])) ex_counting None False
     = Payload (VDict [(''n'', VInt 3)])"
  by (simp add: ex_counting_def marshal_payload_def marshal_fields_Cons source_value_def
      get_value_def envelop_def plain_def)

lemma marshal_default_not_idempotent:
  "marshal (Payload (VDict [(''fee'', VDict [(''foo'', VNull)])])) ex_defaulted None False
     = Payload (VDict [(''fee'', VDict [])])
   \<and> marshal (Payload (VDict [(''fee'', VDict [])])) ex_defaulted None False
     = Payload (VDict [(''fee'', VDict [(''foo'', VInt 5)])])"
  by (simp add: ex_defaulted_def marshal_payload_def marshal_fields_Cons source_value_def
      get_value_def envelop_def plain_def)

end
